theory Spec2Isabelle
  imports Main "HOL-Library.Sublist"
begin

section \<open>Strings, slices and word truncation\<close>

text \<open>
  A Python \<open>str\<close> is a sequence of code points.  The functions of \<open>colly.py\<close> that only
  slice and compare strings are modelled over lists of an arbitrary character type \<open>'c\<close>;
  paths and glob patterns, which mention concrete characters, are \<open>string\<close>s.
  Python integers are unbounded and are modelled by \<open>int\<close>.
\<close>

text \<open>The slice \<open>s[:k]\<close>: a negative \<open>k\<close> counts from the end of \<open>s\<close>.\<close>

definition slice_to :: "'c list \<Rightarrow> int \<Rightarrow> 'c list" where
  "slice_to s k = (if 0 \<le> k then take (nat k) s else take (nat (int (length s) + k)) s)"

text \<open>\<open>truncate_string\<close>: \<open>return s[:max_length] if len(s) > max_length else s\<close>.\<close>

definition truncate_string :: "'c list \<Rightarrow> int \<Rightarrow> 'c list" where
  "truncate_string s max_length =
     (if int (length s) > max_length then slice_to s max_length else s)"

section \<open>The truncation-length solver\<close>

text \<open>
  \<open>find_min_truncation_length\<close>: the \<open>for X in range(1, max_possible_length + 1)\<close> loop
  returns the first \<open>X\<close> whose set of truncated words is as large as the set of words, and
  \<open>None\<close> when the range is exhausted; \<open>List.find\<close> over the interval \<open>[1..max_possible_length]\<close>
  is that loop.  The word set is a Python \<open>set\<close>; \<open>len\<close> of a set is \<open>card\<close>.
\<close>

definition find_min_truncation_length :: "'c list set \<Rightarrow> int \<Rightarrow> int option" where
  "find_min_truncation_length words max_length =
     (if words = {} then None
      else
        let min_possible_length = 1;
            max_possible_length = min (Max ((\<lambda>word. int (length word)) ` words)) max_length
        in List.find
             (\<lambda>X. card ((\<lambda>word. truncate_string word X) ` words) = card words)
             [min_possible_length..max_possible_length])"

section \<open>Word tokens and content truncation\<close>

text \<open>
  The regular expression \<open>\w+\<close> matches a maximal run of word characters.  Which code points
  are word characters is fixed by Python's \<open>re\<close> module (alphanumerics and the underscore,
  Unicode-aware); the functions below take that classification as the parameter \<open>isw\<close>.
  \<open>word_char\<close> is its ASCII part, used to evaluate the functions on concrete strings.
\<close>

definition word_char :: "char \<Rightarrow> bool" where
  "word_char c =
     (c \<in> set ''abcdefghijklmnopqrstuvwxyzABCDEFGHIJKLMNOPQRSTUVWXYZ0123456789_'')"

text \<open>
  \<open>re.findall(r'\w+', content)\<close>: the matches from left to right, each one the longest run
  of word characters starting where the scan stands.
\<close>

function findall_words :: "('c \<Rightarrow> bool) \<Rightarrow> 'c list \<Rightarrow> 'c list list" where
  "findall_words isw [] = []"
| "findall_words isw (c # cs) =
     (if isw c then takeWhile isw (c # cs) # findall_words isw (dropWhile isw cs)
      else findall_words isw cs)"
  by pat_completeness auto
termination
  by (relation "measure (\<lambda>(isw, s). length s)") (auto simp: less_Suc_eq_le length_dropWhile_le)

text \<open>\<open>get_unique_words\<close>: \<open>set(re.findall(r'\w+', content))\<close>.\<close>

definition get_unique_words :: "('c \<Rightarrow> bool) \<Rightarrow> 'c list \<Rightarrow> 'c list set" where
  "get_unique_words isw content = set (findall_words isw content)"

text \<open>
  \<open>truncate_content\<close>: \<open>re.sub(r'\w+', truncate_match, content)\<close> copies the characters
  outside the matches and replaces each match \<open>word\<close> by \<open>truncate_string(word, X)\<close>.
\<close>

function truncate_content :: "('c \<Rightarrow> bool) \<Rightarrow> 'c list \<Rightarrow> int \<Rightarrow> 'c list" where
  "truncate_content isw [] X = []"
| "truncate_content isw (c # cs) X =
     (if isw c
      then truncate_string (takeWhile isw (c # cs)) X @ truncate_content isw (dropWhile isw cs) X
      else c # truncate_content isw cs X)"
  by pat_completeness auto
termination
  by (relation "measure (\<lambda>(isw, s, X). length s)") (auto simp: less_Suc_eq_le length_dropWhile_le)

section \<open>Glob patterns: exclusion rules and overrides\<close>











section \<open>Override specifications\<close>

text \<open>A \<open>ValueError\<close> is the only exception the modelled functions raise.\<close>

datatype error = ValueError

text \<open>\<open>override.split(':', 1)\<close>: at most one split, at the first colon.\<close>

definition split_colon :: "string \<Rightarrow> string list" where
  "split_colon s =
     (if CHR '':'' \<in> set s
      then [takeWhile (\<lambda>c. c \<noteq> CHR '':'') s, drop 1 (dropWhile (\<lambda>c. c \<noteq> CHR '':'') s)]
      else [s])"

text \<open>
  The body of the \<open>try\<close> of \<open>parse_override_max_length\<close>.  Unpacking the split into two
  names raises \<open>ValueError\<close> unless it has two parts; \<open>int(length)\<close> raises it for a text
  that is no integer; the code raises it itself for a width \<open>\<le> 0\<close>.  Python's built-in
  \<open>int\<close> on strings is the parameter \<open>to_int\<close> (\<open>None\<close> for \<open>ValueError\<close>).
\<close>

definition parse_override :: "(string \<Rightarrow> int option) \<Rightarrow> string \<Rightarrow> error + (string \<times> int)" where
  "parse_override to_int override =
     (case split_colon override of
        [pattern, len] \<Rightarrow>
          (case to_int len of
             None \<Rightarrow> Inl ValueError
           | Some n \<Rightarrow> if n \<le> 0 then Inl ValueError else Inr (pattern, n))
      | _ \<Rightarrow> Inl ValueError)"

text \<open>
  The loop of \<open>parse_override_max_length\<close>: \<open>except ValueError\<close> catches the exception of the
  body, logs the entry and goes on with the next one; \<open>parsed\<close> is the accumulator.
\<close>

fun parse_override_loop ::
  "(string \<Rightarrow> int option) \<Rightarrow> (string \<times> int) list \<Rightarrow> string list \<Rightarrow> (string \<times> int) list" where
  "parse_override_loop to_int parsed [] = parsed"
| "parse_override_loop to_int parsed (override # overrides) =
     (case parse_override to_int override of
        Inr entry \<Rightarrow> parse_override_loop to_int (parsed @ [entry]) overrides
      | Inl ValueError \<Rightarrow> parse_override_loop to_int parsed overrides)"

definition parse_override_max_length ::
  "(string \<Rightarrow> int option) \<Rightarrow> string list \<Rightarrow> (string \<times> int) list" where
  "parse_override_max_length to_int overrides = parse_override_loop to_int [] overrides"

text \<open>
  \<open>py_int\<close>: Python's \<open>int\<close> on ASCII strings, used to evaluate the parser on concrete
  entries: surrounding whitespace is dropped, a sign may come first, and the digits may be
  grouped by single underscores.
\<close>

definition is_digit :: "char \<Rightarrow> bool" where
  "is_digit c = (c \<in> set ''0123456789'')"

definition digit_val :: "char \<Rightarrow> nat" where
  "digit_val c = of_char c - 48"

definition is_space :: "char \<Rightarrow> bool" where
  "is_space c = (of_char c \<in> {9, 10, 11, 12, 13, 28, 29, 30, 31, 32 :: nat})"

fun digits_acc :: "nat \<Rightarrow> string \<Rightarrow> nat option" where
  "digits_acc acc [] = Some acc"
| "digits_acc acc [c] = (if is_digit c then Some (10 * acc + digit_val c) else None)"
| "digits_acc acc (c # d # cs) =
     (if is_digit c then digits_acc (10 * acc + digit_val c) (d # cs)
      else if c = CHR ''_'' \<and> is_digit d then digits_acc (10 * acc + digit_val d) cs
      else None)"

definition digits_value :: "string \<Rightarrow> nat option" where
  "digits_value body =
     (case body of [] \<Rightarrow> None
      | c # cs \<Rightarrow> if is_digit c then digits_acc (digit_val c) cs else None)"

definition py_int :: "string \<Rightarrow> int option" where
  "py_int s =
     (let t = rev (dropWhile is_space (rev (dropWhile is_space s)))
      in case t of
           [] \<Rightarrow> None
         | c # cs \<Rightarrow>
             if c = CHR ''-'' then map_option (\<lambda>n. - int n) (digits_value cs)
             else if c = CHR ''+'' then map_option int (digits_value cs)
             else map_option int (digits_value t))"

section \<open>Clipboard chunks\<close>









section \<open>Properties of the solver\<close>

lemma truncate_string_take: "0 \<le> X \<Longrightarrow> truncate_string s X = take (nat X) s"
  by (simp add: truncate_string_def slice_to_def)

lemma card_image_inj_iff: "finite W \<Longrightarrow> card (f ` W) = card W \<longleftrightarrow> inj_on f W"
  by (auto simp: card_image dest: eq_card_imp_inj_on)

lemma solver_pred_inj:
  assumes "finite W" "0 \<le> X"
  shows "card ((\<lambda>word. truncate_string word X) ` W) = card W \<longleftrightarrow> inj_on (\<lambda>w. take (nat X) w) W"
proof -
  have e: "(\<lambda>word. truncate_string word X) = (\<lambda>w. take (nat X) w)"
    using assms(2) by (simp add: truncate_string_take fun_eq_iff)
  show ?thesis unfolding e using assms(1) by (rule card_image_inj_iff)
qed

lemma find_upto_Some:
  "List.find P [a..b] = Some X \<longleftrightarrow> a \<le> X \<and> X \<le> b \<and> P X \<and> (\<forall>Y. a \<le> Y \<and> Y < X \<longrightarrow> \<not> P Y)"
proof
  assume "List.find P [a..b] = Some X"
  then obtain i where i: "i < length [a..b]" "P ([a..b] ! i)" "X = [a..b] ! i" "\<forall>j<i. \<not> P ([a..b] ! j)"
    by (auto simp: find_Some_iff)
  have X: "X = a + int i" using i(1,3) by simp
  have "\<not> P Y" if "a \<le> Y" "Y < X" for Y
  proof -
    have "nat (Y - a) < i" using that X by simp
    then have "\<not> P ([a..b] ! nat (Y - a))" using i(4) by blast
    moreover have "[a..b] ! nat (Y - a) = Y" using that X i(1) by simp
    ultimately show ?thesis by simp
  qed
  then show "a \<le> X \<and> X \<le> b \<and> P X \<and> (\<forall>Y. a \<le> Y \<and> Y < X \<longrightarrow> \<not> P Y)"
    using i X by auto
next
  assume r: "a \<le> X \<and> X \<le> b \<and> P X \<and> (\<forall>Y. a \<le> Y \<and> Y < X \<longrightarrow> \<not> P Y)"
  have 1: "nat (X - a) < length [a..b]" using r by simp
  have 2: "[a..b] ! nat (X - a) = X" using r by simp
  have 3: "\<forall>j<nat (X - a). \<not> P ([a..b] ! j)"
  proof (intro allI impI)
    fix j assume "j < nat (X - a)"
    then have "[a..b] ! j = a + int j" "a + int j < X" using r by auto
    then show "\<not> P ([a..b] ! j)" using r by simp
  qed
  have "P ([a..b] ! nat (X - a))" using r 2 by simp
  with 1 2 3 show "List.find P [a..b] = Some X"
    unfolding find_Some_iff by (intro exI[of _ "nat (X - a)"]) simp
qed

lemma find_upto_None: "List.find P [a..b] = None \<longleftrightarrow> (\<forall>Y. a \<le> Y \<and> Y \<le> b \<longrightarrow> \<not> P Y)"
  by (auto simp: find_None_iff)

lemma take_inj_mono:
  assumes "X \<le> Y" "inj_on (\<lambda>w. take X w) W"
  shows "inj_on (\<lambda>w. take Y w) W"
proof (rule inj_onI)
  fix a b assume ab: "a \<in> W" "b \<in> W" "take Y a = take Y b"
  then have "take X (take Y a) = take X (take Y b)" by simp
  then have "take X a = take X b" using assms(1) by (simp add: min_def)
  then show "a = b" using assms(2) ab by (auto dest: inj_onD)
qed

lemma truncate_inj_mono:
  assumes "0 \<le> X" "X \<le> Y" "inj_on (\<lambda>w. truncate_string w X) W"
  shows "inj_on (\<lambda>w. truncate_string w Y) W"
proof -
  have e: "(\<lambda>w::'c list. truncate_string w X) = (\<lambda>w. take (nat X) w)"
     "(\<lambda>w::'c list. truncate_string w Y) = (\<lambda>w. take (nat Y) w)"
    using assms(1,2) by (simp_all add: truncate_string_take fun_eq_iff)
  show ?thesis using take_inj_mono[of "nat X" "nat Y" W] assms unfolding e by simp
qed

lemma solver_example: "find_min_truncation_length {''cat'', ''caterpillar'', ''dog'', ''dogma''} 80 = Some 4"
  by code_simp

lemma solver_none_example: "find_min_truncation_length {''ab'', ''ac''} 1 = None"
  by code_simp

text \<open>
  Claim C1.  When the solver returns a width \<open>X\<close> for a finite word set \<open>W\<close>, the map
  \<open>w \<mapsto> w[:X]\<close> is injective on \<open>W\<close>, and \<open>X\<close> is minimal: at every width \<open>Y\<close> with
  \<open>1 \<le> Y < X\<close> the map \<open>w \<mapsto> w[:Y]\<close> is not injective on \<open>W\<close>.
\<close>

theorem find_min_truncation_length_injective_minimal:
  assumes "finite W" and "find_min_truncation_length W max_length = Some X"
  shows "1 \<le> X \<and> inj_on (\<lambda>w. take (nat X) w) W \<and>
         (\<forall>Y. 1 \<le> Y \<and> Y < X \<longrightarrow> \<not> inj_on (\<lambda>w. take (nat Y) w) W)"
proof -
  let ?P = "\<lambda>X. card ((\<lambda>word. truncate_string word X) ` W) = card W"
  from assms(2) obtain u where f: "List.find ?P [1..u] = Some X"
    by (auto simp: find_min_truncation_length_def Let_def split: if_splits)
  then have X: "1 \<le> X" "?P X" "\<forall>Y. 1 \<le> Y \<and> Y < X \<longrightarrow> \<not> ?P Y"
    by (simp_all add: find_upto_Some)
  have "inj_on (\<lambda>w. take (nat X) w) W"
    using X(1,2) solver_pred_inj[OF assms(1), of X] by simp
  moreover have "\<not> inj_on (\<lambda>w. take (nat Y) w) W" if "1 \<le> Y" "Y < X" for Y
    using X(3) that solver_pred_inj[OF assms(1), of Y] by simp
  ultimately show ?thesis using X(1) by blast
qed

theorem find_min_truncation_length_injective_minimal_witness:
  "find_min_truncation_length {''cat'', ''caterpillar'', ''dog'', ''dogma''} 80 = Some 4
   \<and> inj_on (\<lambda>w. take (nat 4) w) {''cat'', ''caterpillar'', ''dog'', ''dogma''}
   \<and> \<not> inj_on (\<lambda>w. take (nat 3) w) {''cat'', ''caterpillar'', ''dog'', ''dogma''}"
proof -
  have f: "finite {''cat'', ''caterpillar'', ''dog'', ''dogma''}" by simp
  note r = find_min_truncation_length_injective_minimal[OF f solver_example]
  have i: "inj_on (\<lambda>w. take (nat 4) w) {''cat'', ''caterpillar'', ''dog'', ''dogma''}"
    by (rule r[THEN conjunct2, THEN conjunct1])
  have m: "\<not> inj_on (\<lambda>w. take (nat 3) w) {''cat'', ''caterpillar'', ''dog'', ''dogma''}"
    by (rule r[THEN conjunct2, THEN conjunct2, THEN spec, THEN mp]) simp
  show ?thesis by (intro conjI solver_example i m)
qed

text \<open>
  Claim C2.  When the solver returns \<open>None\<close> for a non-empty finite word set \<open>W\<close>, every
  candidate width \<open>X\<close> between 1 and \<open>min(max(len(w) for w in W), max_length)\<close> has a collision:
  two distinct words of \<open>W\<close> with the same prefix of length \<open>X\<close>.
\<close>

theorem find_min_truncation_length_None_collisions:
  assumes "finite W" and "W \<noteq> {}"
    and "find_min_truncation_length W max_length = None"
    and "1 \<le> X" and "X \<le> min (Max ((\<lambda>w. int (length w)) ` W)) max_length"
  shows "\<exists>w1\<in>W. \<exists>w2\<in>W. w1 \<noteq> w2 \<and> take (nat X) w1 = take (nat X) w2"
proof -
  let ?P = "\<lambda>X. card ((\<lambda>word. truncate_string word X) ` W) = card W"
  from assms(2,3) have "List.find ?P [1..min (Max ((\<lambda>w. int (length w)) ` W)) max_length] = None"
    by (simp add: find_min_truncation_length_def Let_def)
  then have "\<not> ?P X" using assms(4,5) by (simp add: find_upto_None)
  then have "\<not> inj_on (\<lambda>w. take (nat X) w) W"
    using solver_pred_inj[OF assms(1), of X] assms(4) by simp
  then show ?thesis by (auto simp: inj_on_def)
qed

theorem find_min_truncation_length_None_collisions_witness:
  "find_min_truncation_length {''ab'', ''ac''} 1 = None
   \<and> (\<exists>w1\<in>{''ab'', ''ac''}. \<exists>w2\<in>{''ab'', ''ac''}. w1 \<noteq> w2 \<and> take (nat 1) w1 = take (nat 1) w2)"
proof -
  have f: "finite {''ab'', ''ac''}" and n: "{''ab'', ''ac''} \<noteq> {}" by simp_all
  have b: "(1::int) \<le> 1" "(1::int) \<le> min (Max ((\<lambda>w. int (length w)) ` {''ab'', ''ac''})) 1" by simp_all
  show ?thesis
    by (intro conjI solver_none_example
          find_min_truncation_length_None_collisions[OF f n solver_none_example b])
qed

text \<open>
  Claim C3 says that uniqueness of the prefixes is not monotonic in the width: some finite
  \<open>W\<close> and widths \<open>X < Y\<close> within \<open>[1, max word length]\<close> have \<open>w \<mapsto> w[:X]\<close> injective on \<open>W\<close> and
  \<open>w \<mapsto> w[:Y]\<close> not.  No such \<open>W\<close>, \<open>X\<close>, \<open>Y\<close> exist, because \<open>w[:X]\<close> is the prefix of length
  \<open>X\<close> of \<open>w[:Y]\<close>.
\<close>

theorem prefix_uniqueness_nonmonotone_refuted:
  "\<not> (\<exists>(W :: 'c list set) X Y. finite W \<and> 1 \<le> X \<and> X < Y \<and> Y \<le> Max ((\<lambda>w. int (length w)) ` W)
        \<and> inj_on (\<lambda>w. truncate_string w X) W \<and> \<not> inj_on (\<lambda>w. truncate_string w Y) W)"
proof
  assume "\<exists>(W :: 'c list set) X Y. finite W \<and> 1 \<le> X \<and> X < Y \<and> Y \<le> Max ((\<lambda>w. int (length w)) ` W)
        \<and> inj_on (\<lambda>w. truncate_string w X) W \<and> \<not> inj_on (\<lambda>w. truncate_string w Y) W"
  then obtain W :: "'c list set" and X Y where h: "1 \<le> X" "X < Y" "inj_on (\<lambda>w. truncate_string w X) W"
     "\<not> inj_on (\<lambda>w. truncate_string w Y) W" by blast
  from truncate_inj_mono[of X Y W] h show False by simp
qed

text \<open>
  Claim C3, amended.  Uniqueness of the prefixes is monotonic in the width: for every word
  set \<open>W\<close> and widths \<open>1 \<le> X \<le> Y\<close>, if truncation at \<open>X\<close> is injective on \<open>W\<close> then so is
  truncation at \<open>Y\<close>.
\<close>

theorem prefix_uniqueness_monotone:
  assumes "1 \<le> X" and "X \<le> Y" and "inj_on (\<lambda>w. truncate_string w X) W"
  shows "inj_on (\<lambda>w. truncate_string w Y) W"
  using truncate_inj_mono[of X Y W] assms by simp

theorem prefix_uniqueness_monotone_witness:
  "inj_on (\<lambda>w. truncate_string w 1) {''ab'', ''cd''} \<and> inj_on (\<lambda>w. truncate_string w 2) {''ab'', ''cd''}"
proof -
  have i: "inj_on (\<lambda>w. truncate_string w 1) {''ab'', ''cd''}"
    by (simp add: truncate_string_def slice_to_def)
  have "(1::int) \<le> 1" "(1::int) \<le> 2" by simp_all
  then show ?thesis by (intro conjI i prefix_uniqueness_monotone[OF _ _ i])
qed




section \<open>Properties of content truncation\<close>

lemma truncate_string_set: "set (truncate_string u X) \<subseteq> set u"
  by (auto simp: truncate_string_def slice_to_def dest: in_set_takeD)

lemma truncate_string_idem: "0 \<le> X \<Longrightarrow> truncate_string (truncate_string u X) X = truncate_string u X"
  by (simp add: truncate_string_take)

lemma truncate_string_nonempty: "1 \<le> X \<Longrightarrow> u \<noteq> [] \<Longrightarrow> truncate_string u X \<noteq> []"
  by (cases u) (auto simp: truncate_string_take)

lemma takeWhile_boundary: "v = [] \<or> \<not> isw (hd v) \<Longrightarrow> takeWhile isw v = []"
  by (cases v) auto

lemma dropWhile_boundary: "v = [] \<or> \<not> isw (hd v) \<Longrightarrow> dropWhile isw v = v"
  by (cases v) auto

lemma boundary_dropWhile: "dropWhile isw cs = [] \<or> \<not> isw (hd (dropWhile isw cs))"
  using hd_dropWhile[of isw cs] by blast

lemma truncate_content_word_append:
  assumes "u \<noteq> []" and "\<forall>x\<in>set u. isw x" and "v = [] \<or> \<not> isw (hd v)"
  shows "truncate_content isw (u @ v) X = truncate_string u X @ truncate_content isw v X"
proof -
  from assms(1) obtain c u' where u: "u = c # u'" by (cases u) auto
  have c: "isw c" and u': "\<forall>x\<in>set u'. isw x" using assms(2) u by auto
  have t: "takeWhile isw (u' @ v) = u'"
    using u' takeWhile_boundary[of v isw] assms(3) by (simp add: takeWhile_append)
  have d: "dropWhile isw (u' @ v) = v"
    using u' dropWhile_boundary[of v isw] assms(3) by (simp add: dropWhile_append)
  show ?thesis using c t d by (simp add: u)
qed


lemma truncate_content_boundary:
  "v = [] \<or> \<not> isw (hd v) \<Longrightarrow>
   truncate_content isw v X = [] \<or> \<not> isw (hd (truncate_content isw v X))"
  by (cases v) auto

lemma truncate_content_word_step:
  assumes "isw c" and "1 \<le> X"
  shows "truncate_content isw (c # cs) X
           = truncate_string (c # takeWhile isw cs) X @ truncate_content isw (dropWhile isw cs) X"
    and "truncate_string (c # takeWhile isw cs) X \<noteq> []"
    and "\<forall>x\<in>set (truncate_string (c # takeWhile isw cs) X). isw x"
    and "truncate_content isw (dropWhile isw cs) X = []
          \<or> \<not> isw (hd (truncate_content isw (dropWhile isw cs) X))"
proof -
  show "truncate_content isw (c # cs) X
           = truncate_string (c # takeWhile isw cs) X @ truncate_content isw (dropWhile isw cs) X"
    using assms(1) by simp
  show "truncate_string (c # takeWhile isw cs) X \<noteq> []"
    using assms(2) by (intro truncate_string_nonempty) auto
  have "\<forall>x\<in>set (c # takeWhile isw cs). isw x"
    using assms(1) by (auto dest: set_takeWhileD)
  then show "\<forall>x\<in>set (truncate_string (c # takeWhile isw cs) X). isw x"
    using truncate_string_set[of "c # takeWhile isw cs" X] by blast
  show "truncate_content isw (dropWhile isw cs) X = []
          \<or> \<not> isw (hd (truncate_content isw (dropWhile isw cs) X))"
    using truncate_content_boundary[of "dropWhile isw cs" isw X] boundary_dropWhile[of isw cs] by blast
qed



lemma findall_words_nonempty:
  "w \<in> set (findall_words isw content) \<Longrightarrow> w \<noteq> [] \<and> (\<forall>x\<in>set w. isw x)"
proof (induction isw content rule: findall_words.induct)
  case (1 isw)
  then show ?case by simp
next
  case (2 isw c cs)
  show ?case
  proof (cases "isw c")
    case True
    from "2.prems" True
    consider "w = c # takeWhile isw cs" | "w \<in> set (findall_words isw (dropWhile isw cs))"
      by auto
    then show ?thesis
    proof cases
      case 1
      then show ?thesis using True by (auto dest: set_takeWhileD)
    next
      case 2
      then show ?thesis by (rule "2.IH"(1)[OF True])
    qed
  next
    case False
    with "2.prems" have "w \<in> set (findall_words isw cs)" by simp
    then show ?thesis by (rule "2.IH"(2)[OF False])
  qed
qed

lemma get_unique_words_nonempty: "[] \<notin> get_unique_words isw content"
  using findall_words_nonempty[of "[]" isw content] by (auto simp: get_unique_words_def)

text \<open>
  Claim C7.  Truncation is idempotent: for every content and every width \<open>X \<ge> 1\<close>,
  truncating the truncated content at \<open>X\<close> again changes nothing.
\<close>

theorem truncate_content_idempotent:
  assumes "1 \<le> X"
  shows "truncate_content isw (truncate_content isw content X) X = truncate_content isw content X"
  using assms
proof (induction isw content X rule: truncate_content.induct)
  case (1 isw X)
  show ?case by simp
next
  case (2 isw c cs X)
  show ?case
  proof (cases "isw c")
    case True
    note s = truncate_content_word_step[of isw c X cs, OF True "2.prems"]
    have ih: "truncate_content isw (truncate_content isw (dropWhile isw cs) X) X
                = truncate_content isw (dropWhile isw cs) X"
      using "2.IH"(1)[OF True "2.prems"] .
    have "truncate_content isw (truncate_content isw (c # cs) X) X
            = truncate_string (truncate_string (c # takeWhile isw cs) X) X
              @ truncate_content isw (truncate_content isw (dropWhile isw cs) X) X"
      unfolding s(1) using s(2) s(3) s(4) by (rule truncate_content_word_append)
    also have "\<dots> = truncate_string (c # takeWhile isw cs) X @ truncate_content isw (dropWhile isw cs) X"
      using "2.prems" by (simp add: ih truncate_string_idem)
    finally show ?thesis unfolding s(1) .
  next
    case False
    then show ?thesis using "2.IH"(2)[OF False "2.prems"] by simp
  qed
qed

theorem truncate_content_idempotent_witness: "truncate_content word_char ''hello world, foo_bar9!'' 3 = ''hel wor, foo!''
  \<and> truncate_content word_char (truncate_content word_char ''hello world, foo_bar9!'' 3) 3 = truncate_content word_char ''hello world, foo_bar9!'' 3"
proof -
  have h: "(1::int) \<le> 3" by simp
  have e: "truncate_content word_char ''hello world, foo_bar9!'' 3 = ''hel wor, foo!''"
    by code_simp
  show ?thesis by (intro conjI e truncate_content_idempotent[OF h])
qed




section \<open>Properties of exclusion matching\<close>









section \<open>Properties of override resolution\<close>











section \<open>Properties of override parsing\<close>

lemma parse_override_loop_acc:
  "parse_override_loop to_int parsed overrides = parsed @ parse_override_loop to_int [] overrides"
proof (induction overrides arbitrary: parsed)
  case Nil
  show ?case by simp
next
  case (Cons e es)
  show ?case
  proof (cases "parse_override to_int e")
    case (Inl err)
    then show ?thesis using Cons.IH[of parsed] by (cases err) simp
  next
    case (Inr entry)
    then show ?thesis using Cons.IH[of "parsed @ [entry]"] Cons.IH[of "[entry]"] by simp
  qed
qed

lemma parse_override_max_length_Cons:
  "parse_override_max_length to_int (e # es)
     = (case parse_override to_int e of Inr entry \<Rightarrow> [entry] | Inl err \<Rightarrow> [])
       @ parse_override_max_length to_int es"
proof (cases "parse_override to_int e")
  case (Inl err)
  then show ?thesis by (cases err) (simp add: parse_override_max_length_def)
next
  case (Inr entry)
  then show ?thesis
    using parse_override_loop_acc[of to_int "[entry]" es]
    by (simp add: parse_override_max_length_def)
qed

lemma parse_override_max_length_append:
  "parse_override_max_length to_int (xs @ ys)
     = parse_override_max_length to_int xs @ parse_override_max_length to_int ys"
proof (induction xs)
  case Nil
  show ?case by (simp add: parse_override_max_length_def)
next
  case (Cons e es)
  then show ?case by (simp add: parse_override_max_length_Cons)
qed

lemma split_colon_none: "CHR '':'' \<notin> set e \<Longrightarrow> split_colon e = [e]"
  by (simp add: split_colon_def)

lemma split_colon_first:
  assumes "CHR '':'' \<notin> set pattern"
  shows "split_colon (pattern @ CHR '':'' # width) = [pattern, width]"
proof -
  have a: "\<forall>x\<in>set pattern. x \<noteq> CHR '':''" using assms by auto
  have t: "takeWhile (\<lambda>c. c \<noteq> CHR '':'') (pattern @ CHR '':'' # width) = pattern"
    using a by (simp add: takeWhile_append)
  have d: "dropWhile (\<lambda>c. c \<noteq> CHR '':'') (pattern @ CHR '':'' # width) = CHR '':'' # width"
    using a by (simp add: dropWhile_append)
  show ?thesis using t d by (simp add: split_colon_def)
qed

lemma parse_override_no_colon: "CHR '':'' \<notin> set e \<Longrightarrow> parse_override to_int e = Inl ValueError"
  by (simp add: parse_override_def split_colon_none)

lemma parse_override_colon:
  "CHR '':'' \<notin> set pattern \<Longrightarrow>
   parse_override to_int (pattern @ CHR '':'' # width)
     = (case to_int width of
          None \<Rightarrow> Inl ValueError
        | Some n \<Rightarrow> if n \<le> 0 then Inl ValueError else Inr (pattern, n))"
  by (simp add: parse_override_def split_colon_first)

text \<open>
  Claim C9.  \<open>parse_override_max_length\<close> handles the entries one by one and in order (the
  result for a list is the concatenation of the results for its entries), and never fails:
  an entry without a colon is dropped; an entry \<open>PATTERN:WIDTH\<close>, split at its first colon,
  is kept as the pair of the pattern and the integer when \<open>WIDTH\<close> is an integer greater than
  0, and dropped when \<open>WIDTH\<close> is no integer or an integer \<open>\<le> 0\<close>.
\<close>

theorem parse_override_max_length_well_formed:
  "parse_override_max_length to_int (xs @ ys)
     = parse_override_max_length to_int xs @ parse_override_max_length to_int ys
   \<and> (CHR '':'' \<notin> set e \<longrightarrow> parse_override_max_length to_int [e] = [])
   \<and> (CHR '':'' \<notin> set pattern \<longrightarrow>
        parse_override_max_length to_int [pattern @ '':'' @ width]
          = (case to_int width of
               Some n \<Rightarrow> if 0 < n then [(pattern, n)] else []
             | None \<Rightarrow> []))"
proof (intro conjI impI)
  show "parse_override_max_length to_int (xs @ ys)
     = parse_override_max_length to_int xs @ parse_override_max_length to_int ys"
    by (rule parse_override_max_length_append)
next
  assume "CHR '':'' \<notin> set e"
  then show "parse_override_max_length to_int [e] = []"
    by (simp add: parse_override_max_length_def parse_override_no_colon)
next
  assume "CHR '':'' \<notin> set pattern"
  then show "parse_override_max_length to_int [pattern @ '':'' @ width]
          = (case to_int width of
               Some n \<Rightarrow> if 0 < n then [(pattern, n)] else []
             | None \<Rightarrow> [])"
    by (simp add: parse_override_max_length_def parse_override_colon split: option.splits)
qed

theorem parse_override_max_length_well_formed_witness:
  "parse_override_max_length py_int [''bad''] = []
   \<and> parse_override_max_length py_int [''*.py'' @ '':'' @ ''50''] = [(''*.py'', 50)]
   \<and> parse_override_max_length py_int
        ([''*.py:50'', ''bad''] @ [''a:b:3'', ''x:0'', ''y:-2'', ''*.md:3''])
       = [(''*.py'', 50), (''*.md'', 3)]"
proof -
  note r = parse_override_max_length_well_formed[of py_int "[''*.py:50'', ''bad'']" "[''a:b:3'', ''x:0'', ''y:-2'', ''*.md:3'']"
              "''bad''" "''*.py''" "''50''"]
  have c1: "CHR '':'' \<notin> set ''bad''" and c2: "CHR '':'' \<notin> set ''*.py''" by simp_all
  have i: "py_int ''50'' = Some 50" by code_simp
  have x: "parse_override_max_length py_int [''*.py:50'', ''bad''] = [(''*.py'', 50)]" by code_simp
  have y: "parse_override_max_length py_int [''a:b:3'', ''x:0'', ''y:-2'', ''*.md:3''] = [(''*.md'', 3)]"
    by code_simp
  have a: "parse_override_max_length py_int [''bad''] = []"
    by (rule r[THEN conjunct2, THEN conjunct1, THEN mp, OF c1])
  have b: "parse_override_max_length py_int [''*.py'' @ '':'' @ ''50''] = [(''*.py'', 50)]"
    using r[THEN conjunct2, THEN conjunct2, THEN mp, OF c2] unfolding i by simp
  have c: "parse_override_max_length py_int
        ([''*.py:50'', ''bad''] @ [''a:b:3'', ''x:0'', ''y:-2'', ''*.md:3''])
       = [(''*.py'', 50), (''*.md'', 3)]"
    using r[THEN conjunct1] unfolding x y by simp
  show ?thesis by (intro conjI a b c)
qed

section \<open>Properties of clipboard chunking\<close>















end
